theory Spec2Isabelle
  imports Main
begin

section \<open>Strings of the Python program\<close>

text \<open>
  The program is \<^verbatim>\<open>ainux_llm.py\<close>; the functions embedded here are
  \<^verbatim>\<open>AiNuxLLM.is_command_safe\<close> and \<^verbatim>\<open>AiNuxLLM.execute_command\<close>.

  A Python \<^verbatim>\<open>str\<close> is a sequence of code points. It is modelled by \<^typ>\<open>string\<close>, each
  \<^typ>\<open>char\<close> standing for the code point of the same number, so the model covers the
  strings whose code points lie below 256 (ASCII and Latin-1). On that range the three
  character functions below are Python's own tables.
\<close>

text \<open>
  \<^verbatim>\<open>str.isspace\<close> on one character, which is also what \<^verbatim>\<open>str.strip()\<close> removes and what
  \<^verbatim>\<open>\s\<close> matches in a \<^verbatim>\<open>str\<close> pattern: TAB, LF, VT, FF, CR, the separators
  0x1C..0x1F, the space, NEL (0x85) and the no-break space (0xA0).
\<close>

definition py_isspace :: "char \<Rightarrow> bool" where
  "py_isspace c \<longleftrightarrow>
     (let n = (of_char c :: nat)
      in (9 \<le> n \<and> n \<le> 13) \<or> (28 \<le> n \<and> n \<le> 32) \<or> n = 133 \<or> n = 160)"

text \<open>
  \<^verbatim>\<open>str.lower()\<close> on one character: \<^verbatim>\<open>A..Z\<close> and the Latin-1 capitals 0xC0..0xDE
  (the multiplication sign 0xD7 apart) move up by 32.
\<close>

definition py_lower_chr :: "char \<Rightarrow> char" where
  "py_lower_chr c =
     (let n = (of_char c :: nat)
      in if (65 \<le> n \<and> n \<le> 90) \<or> (192 \<le> n \<and> n \<le> 222 \<and> n \<noteq> 215)
         then char_of (n + 32) else c)"

definition py_lower :: "string \<Rightarrow> string" where
  "py_lower s = map py_lower_chr s"

text \<open>\<^verbatim>\<open>str.strip()\<close> with no argument: whitespace goes from both ends.\<close>

definition py_strip :: "string \<Rightarrow> string" where
  "py_strip s = dropWhile py_isspace (rev (dropWhile py_isspace (rev s)))"

section \<open>The regular expressions of the classifier\<close>

text \<open>
  The patterns of \<^verbatim>\<open>is_command_safe\<close> use literals, \<^verbatim>\<open>\s\<close>, \<^verbatim>\<open>.\<close>, the classes
  \<^verbatim>\<open>[06]\<close> and \<^verbatim>\<open>[0-7]\<close>, \<^verbatim>\<open>$\<close>, grouping, \<^verbatim>\<open>|\<close>, \<^verbatim>\<open>*\<close> and \<^verbatim>\<open>+\<close>.
\<close>

datatype regex =
    Eps
  | Chr char
  | Space
  | Dot
  | OneOf "char list"
  | Range char char
  | Eol
  | Seq regex regex
  | Alt regex regex
  | Star regex
  | Plus regex

text \<open>
  One character against a one-character pattern. \<^verbatim>\<open>.\<close> is every character but the
  line feed (no \<^verbatim>\<open>DOTALL\<close>); a range compares code points.
\<close>

fun chr_ok :: "regex \<Rightarrow> char \<Rightarrow> bool" where
  "chr_ok (Chr a) c = (c = a)"
| "chr_ok Space c = py_isspace c"
| "chr_ok Dot c = (c \<noteq> CHR 0x0A)"
| "chr_ok (OneOf cs) c = (c \<in> set cs)"
| "chr_ok (Range lo hi) c = ((of_char lo :: nat) \<le> of_char c \<and> (of_char c :: nat) \<le> of_char hi)"
| "chr_ok _ c = False"

text \<open>
  Repetition: from \<open>s\<close>, every text reachable by matching the body any number of times.
  An iteration that consumes nothing reaches nothing new, so only iterations that shorten
  the text are followed, and \<open>length s\<close> rounds are enough.
\<close>

fun iter :: "nat \<Rightarrow> (string \<Rightarrow> string list) \<Rightarrow> string \<Rightarrow> string list" where
  "iter 0 f s = [s]"
| "iter (Suc n) f s = s # concat (map (iter n f) (filter (\<lambda>t. length t < length s) (f s)))"

lemma iter_cong [fundef_cong]:
  "(\<And>t. f t = g t) \<Longrightarrow> n = m \<Longrightarrow> s = u \<Longrightarrow> iter n f s = iter m g u"
proof -
  assume "\<And>t. f t = g t" and "n = m" and "s = u"
  then have "f = g" by blast
  with \<open>n = m\<close> \<open>s = u\<close> show ?thesis by simp
qed

text \<open>
  \<open>ms r s\<close> lists what is left of \<open>s\<close> after each way of matching \<open>r\<close> at its start.
  \<^verbatim>\<open>$\<close> (no \<^verbatim>\<open>MULTILINE\<close>) holds at the end of the text and just before a line feed
  that ends it. Whether a match exists does not depend on the order in which a
  backtracking engine tries the alternatives, so the list stands for Python's search.
\<close>

fun ms :: "regex \<Rightarrow> string \<Rightarrow> string list" where
  "ms Eps s = [s]"
| "ms Eol s = (if s = [] \<or> s = [CHR 0x0A] then [s] else [])"
| "ms (Seq a b) s = concat (map (\<lambda>t. ms b t) (ms a s))"
| "ms (Alt a b) s = ms a s @ ms b s"
| "ms (Star r) s = iter (length s) (\<lambda>t. ms r t) s"
| "ms (Plus r) s = concat (map (\<lambda>u. iter (length u) (\<lambda>t. ms r t) u) (ms r s))"
| "ms r s = (case s of [] \<Rightarrow> [] | c # t \<Rightarrow> if chr_ok r c then [t] else [])"

text \<open>\<^verbatim>\<open>re.match\<close>: is there a match at the start of the text.\<close>

definition re_match :: "regex \<Rightarrow> string \<Rightarrow> bool" where
  "re_match r s \<longleftrightarrow> ms r s \<noteq> []"

text \<open>
  \<^verbatim>\<open>re.search\<close>: is there a match at some position, the end of the text included. No
  pattern here looks behind the position it starts at, so a match at position \<open>i\<close> is a
  match at the start of the text from \<open>i\<close> on.
\<close>

fun re_search :: "regex \<Rightarrow> string \<Rightarrow> bool" where
  "re_search r [] = re_match r []"
| "re_search r (c # t) = (re_match r (c # t) \<or> re_search r t)"

text \<open>A literal word, and a pattern written as the sequence of its parts.\<close>

fun lit :: "string \<Rightarrow> regex" where
  "lit [] = Eps"
| "lit (c # cs) = Seq (Chr c) (lit cs)"

fun seq :: "regex list \<Rightarrow> regex" where
  "seq [] = Eps"
| "seq (r # rs) = Seq r (seq rs)"

section \<open>is\_command\_safe\<close>

text \<open>
  The three results of \<^verbatim>\<open>is_command_safe\<close>: \<^verbatim>\<open>True\<close> is \<open>Safe\<close>, \<^verbatim>\<open>"confirm"\<close> is
  \<open>Confirm\<close>, \<^verbatim>\<open>False\<close> is \<open>Forbidden\<close>.
\<close>

datatype verdict = Safe | Confirm | Forbidden

definition forbidden_patterns :: "regex list" where
  "forbidden_patterns =
    [ seq [lit ''rm'', Plus Space, lit ''-rf'', Plus Space, Chr CHR ''/''],
      seq [lit ''format'', Alt Space Eol],
      lit ''fdisk'',
      seq [lit ''dd'', Plus Space, lit ''if=''],
      Alt (seq [lit '':()'', Star Space, Chr CHR ''{'', Star Space, Chr CHR '':''])
          (seq [lit '':&}'', Star Space, Chr CHR '';'', Star Space, Chr CHR '':'']),
      seq [lit ''shutdown'', Alt Space Eol],
      seq [lit ''reboot'', Alt Space Eol],
      seq [lit ''poweroff'', Alt Space Eol],
      seq [lit ''init'', Plus Space, OneOf ''06''] ]"

definition confirmable_patterns :: "regex list" where
  "confirmable_patterns =
    [ seq [lit ''rm'', Plus Space, lit ''-rf'', Plus Space, Plus Dot],
      seq [lit ''rm'', Plus Space, Plus Dot],
      seq [lit ''del'', Plus Space, Plus Dot],
      seq [lit ''rmdir'', Plus Space, lit ''/s'', Plus Space, lit ''/q'', Plus Space, Plus Dot],
      seq [lit ''rmdir'', Plus Space, Plus Dot],
      seq [lit ''mv'', Plus Space, Plus Dot],
      seq [lit ''chmod'', Plus Space, Chr CHR ''7'', Range CHR ''0'' CHR ''7'', Range CHR ''0'' CHR ''7''],
      seq [lit ''chown'', Plus Space, lit ''-r'', Plus Space, Plus Dot] ]"

text \<open>
  The loop \<^verbatim>\<open>for pattern in ps: if re.search(pattern, command_lower): return ...\<close>:
  does some pattern of the list, tried in order, match.
\<close>

fun any_match :: "regex list \<Rightarrow> string \<Rightarrow> bool" where
  "any_match [] s = False"
| "any_match (p # ps) s = (if re_search p s then True else any_match ps s)"

definition is_command_safe :: "string \<Rightarrow> verdict" where
  "is_command_safe command =
     (let command_lower = py_strip (py_lower command)
      in if any_match forbidden_patterns command_lower then Forbidden
         else if any_match confirmable_patterns command_lower then Confirm
         else Safe)"

section \<open>execute\_command\<close>

text \<open>
  \<^verbatim>\<open>str.upper()\<close> on one character. The result is a string: the sharp s (0xDF) becomes
  \<^verbatim>\<open>SS\<close>. The micro sign (0xB5) and the y with diaeresis (0xFF) have capitals above
  code point 255, which \<^typ>\<open>char\<close> cannot hold; they are left in place, and either way
  they are no ASCII letter.
\<close>

definition py_upper_chr :: "char \<Rightarrow> string" where
  "py_upper_chr c =
     (let n = (of_char c :: nat)
      in if (97 \<le> n \<and> n \<le> 122) \<or> (224 \<le> n \<and> n \<le> 254 \<and> n \<noteq> 247)
         then [char_of (n - 32)]
         else if n = 223 then ''SS'' else [c])"

definition py_upper :: "string \<Rightarrow> string" where
  "py_upper s = concat (map py_upper_chr s)"

text \<open>
  The statement in the \<^verbatim>\<open>try\<close> block is \<^verbatim>\<open>subprocess.run(command, shell=True,
  capture_output=True, text=True, timeout=30, cwd=os.getcwd())\<close>. Its arguments are
  evaluated before the call, so \<^verbatim>\<open>os.getcwd()\<close> comes first: it returns the working
  directory, or raises (the directory is gone, say), and the text of the exception is kept.
\<close>

datatype cwd = Cwd string | CwdRaised string

text \<open>
  What \<^verbatim>\<open>subprocess.run\<close> does when it is called: it returns a completed process (return
  code, standard output, standard error), or raises \<^verbatim>\<open>TimeoutExpired\<close>, or raises another
  exception, whose text is kept.
\<close>

datatype proc = Completed int string string | TimeoutExpired | Raised string

text \<open>The dictionary that \<^verbatim>\<open>execute_command\<close> returns; the key \<^verbatim>\<open>return_code\<close> may be absent.\<close>

record exec_result =
  success :: bool
  "output" :: string
  error :: string
  command :: string
  return_code :: "int option"

text \<open>
  What the call does to the outside, in order: a line printed, a line asked for with
  \<^verbatim>\<open>input\<close> (the prompt is kept), and \<^verbatim>\<open>subprocess.run\<close> called on a command.
\<close>

datatype event = Printed string | Prompted string | Spawned string

text \<open>\<^verbatim>\<open>input\<close> raises \<^verbatim>\<open>EOFError\<close> when there is no line to read; nothing catches it.\<close>

datatype py_exception = EOFError

text \<open>
  The dictionary made from what \<^verbatim>\<open>subprocess.run\<close> did: the \<^verbatim>\<open>return\<close> of the \<^verbatim>\<open>try\<close>
  block and its two \<^verbatim>\<open>except\<close> clauses.
\<close>

fun proc_result :: "proc \<Rightarrow> string \<Rightarrow> exec_result" where
  "proc_result (Completed returncode stdout stderr) cmd =
     \<lparr> success = (returncode = 0),
       output = (if stdout \<noteq> [] then py_strip stdout else []),
       error = (if stderr \<noteq> [] then py_strip stderr else []),
       command = cmd,
       return_code = Some returncode \<rparr>"
| "proc_result TimeoutExpired cmd =
     \<lparr> success = False, output = [],
       error = ''Command timed out after 30 seconds: '' @ cmd,
       command = cmd, return_code = None \<rparr>"
| "proc_result (Raised e) cmd =
     \<lparr> success = False, output = [],
       error = ''Unexpected error executing command: '' @ e,
       command = cmd, return_code = None \<rparr>"

text \<open>
  The \<^verbatim>\<open>try\<close> block as a whole. When \<^verbatim>\<open>os.getcwd()\<close> raises, \<^verbatim>\<open>except Exception\<close>
  makes the dictionary and \<^verbatim>\<open>subprocess.run\<close> is never called; otherwise it is called on
  the command.
\<close>

fun run_shell :: "cwd \<Rightarrow> proc \<Rightarrow> string \<Rightarrow> exec_result \<times> event list" where
  "run_shell (CwdRaised e) oc cmd = (proc_result (Raised e) cmd, [])"
| "run_shell (Cwd d) oc cmd = (proc_result oc cmd, [Spawned cmd])"

definition blocked :: "string \<Rightarrow> exec_result" where
  "blocked cmd =
     \<lparr> success = False, output = [],
       error = ''Command blocked for security reasons: '' @ cmd,
       command = cmd, return_code = None \<rparr>"

definition cancelled :: "string \<Rightarrow> exec_result" where
  "cancelled cmd =
     \<lparr> success = False, output = [],
       error = ''Execution cancelled by user: '' @ cmd,
       command = cmd, return_code = None \<rparr>"

text \<open>The two \<^verbatim>\<open>print\<close> calls and the \<^verbatim>\<open>input\<close> call of the confirmation.\<close>

definition confirm_prompt :: "string \<Rightarrow> event list" where
  "confirm_prompt cmd =
     [ Printed ([CHR 0x0A] @ ''WARNING: This command may delete or modify important files:''
                @ [CHR 0x0A] @ ''  '' @ cmd),
       Printed (''If you'' @ [CHR 0x27] @ ''re absolutely certain, type YES.''),
       Prompted ''Confirm (YES to run): '' ]"

text \<open>
  \<open>execute_command wd oc line cmd\<close>: \<open>cmd\<close> is the command, \<open>line\<close> is what \<^verbatim>\<open>input\<close>
  returns if it is called (\<open>None\<close>: end of input), \<open>wd\<close> is what \<^verbatim>\<open>os.getcwd()\<close> does if
  it is evaluated, \<open>oc\<close> is what \<^verbatim>\<open>subprocess.run\<close> does if it is called. The result is
  the dictionary returned, or the exception that escapes, and the events in order.
\<close>

definition execute_command ::
  "cwd \<Rightarrow> proc \<Rightarrow> string option \<Rightarrow> string \<Rightarrow> (py_exception + exec_result) \<times> event list" where
  "execute_command wd oc line cmd =
     (let safety = is_command_safe cmd
      in if safety = Forbidden then (Inr (blocked cmd), [])
         else if safety = Confirm then
           (case line of
              None \<Rightarrow> (Inl EOFError, confirm_prompt cmd)
            | Some l \<Rightarrow>
                (let confirm = py_strip l
                 in if py_upper confirm \<noteq> ''YES''
                    then (Inr (cancelled cmd), confirm_prompt cmd)
                    else (Inr (fst (run_shell wd oc cmd)),
                          confirm_prompt cmd @ snd (run_shell wd oc cmd))))
         else (Inr (fst (run_shell wd oc cmd)), snd (run_shell wd oc cmd)))"

text \<open>The commands on which \<^verbatim>\<open>subprocess.run\<close> was called, read off the events.\<close>

fun spawned :: "event list \<Rightarrow> string list" where
  "spawned [] = []"
| "spawned (Spawned c # es) = c # spawned es"
| "spawned (_ # es) = spawned es"

text \<open>
  The comparison the specification asks of the confirmation: equal to the token when case
  is ignored, that is, when both are put in upper case.
\<close>

definition eq_ignore_case :: "string \<Rightarrow> string \<Rightarrow> bool" where
  "eq_ignore_case a b \<longleftrightarrow> py_upper a = py_upper b"

section \<open>Facts about the string functions\<close>

lemma of_char_lt: "(of_char c :: nat) < 256"
  by (metis of_char_mod_256 mod_less_divisor zero_less_numeral)

lemma py_isspace_lower: "py_isspace (py_lower_chr c) = py_isspace c"
  using of_char_lt[of c] by (auto simp: py_isspace_def py_lower_chr_def Let_def)

lemma py_lower_chr_idem: "py_lower_chr (py_lower_chr c) = py_lower_chr c"
  using of_char_lt[of c] by (auto simp: py_lower_chr_def Let_def)

lemma py_lower_idem: "py_lower (py_lower s) = py_lower s"
  by (simp add: py_lower_def py_lower_chr_idem)

lemma py_strip_lower: "py_strip (py_lower s) = py_lower (py_strip s)"
  by (simp add: py_strip_def py_lower_def dropWhile_map rev_map comp_def py_isspace_lower)

lemma py_strip_ends:
  "py_strip s = [] \<or> (\<not> py_isspace (hd (py_strip s)) \<and> \<not> py_isspace (last (py_strip s)))"
proof (cases "py_strip s = []")
  case True
  then show ?thesis by simp
next
  case False
  define a where "a = dropWhile py_isspace (rev s)"
  have b: "py_strip s = dropWhile py_isspace (rev a)"
    by (simp add: py_strip_def a_def)
  have "a \<noteq> []" using False b by auto
  then have ha: "\<not> py_isspace (hd a)"
    unfolding a_def by (rule hd_dropWhile)
  have hb: "\<not> py_isspace (hd (py_strip s))"
    using False unfolding b by (rule hd_dropWhile)
  have "rev a = takeWhile py_isspace (rev a) @ py_strip s"
    by (simp add: b)
  then have "last (rev a) = last (py_strip s)"
    using False by (metis last_appendR)
  then have "last (py_strip s) = hd a"
    using \<open>a \<noteq> []\<close> by (simp add: last_rev)
  with ha hb show ?thesis by simp
qed

lemma py_strip_fix:
  assumes "s = [] \<or> (\<not> py_isspace (hd s) \<and> \<not> py_isspace (last s))"
  shows "py_strip s = s"
proof (cases "s = []")
  case True
  then show ?thesis by (simp add: py_strip_def)
next
  case False
  with assms have h: "\<not> py_isspace (hd s)" and l: "\<not> py_isspace (last s)" by auto
  have "hd (rev s) = last s" using False by (simp add: hd_rev)
  then have "dropWhile py_isspace (rev s) = rev s"
    using l by (simp add: dropWhile_eq_self_iff)
  moreover have "dropWhile py_isspace s = s"
    using h by (simp add: dropWhile_eq_self_iff)
  ultimately show ?thesis by (simp add: py_strip_def)
qed

lemma py_strip_idem: "py_strip (py_strip s) = py_strip s"
  by (rule py_strip_fix) (rule py_strip_ends)

lemma py_strip_append:
  assumes "py_strip d \<noteq> []"
  shows "\<exists>x. py_strip (u @ d) = x @ py_strip d"
proof -
  define b where "b = rev (dropWhile py_isspace (rev d))"
  have sd: "py_strip d = dropWhile py_isspace b"
    by (simp add: py_strip_def b_def)
  have "dropWhile py_isspace (rev d) \<noteq> []"
  proof
    assume "dropWhile py_isspace (rev d) = []"
    then have "py_strip d = []"
      unfolding py_strip_def by (simp only: rev.simps dropWhile.simps)
    with assms show False by simp
  qed
  then have "\<exists>c\<in>set (rev d). \<not> py_isspace c"
    by (metis dropWhile_eq_Nil_conv)
  then have "dropWhile py_isspace (rev d @ rev u) = dropWhile py_isspace (rev d) @ rev u"
    by (metis dropWhile_append1)
  then have su: "py_strip (u @ d) = dropWhile py_isspace (u @ b)"
    by (simp add: py_strip_def b_def)
  show ?thesis
  proof (cases "\<forall>c\<in>set u. py_isspace c")
    case True
    then have "py_strip (u @ d) = [] @ py_strip d"
      by (simp add: su sd dropWhile_append)
    then show ?thesis by blast
  next
    case False
    then have "py_strip (u @ d) = dropWhile py_isspace u @ b"
      unfolding su by (auto simp: dropWhile_append)
    also have "\<dots> = (dropWhile py_isspace u @ takeWhile py_isspace b) @ py_strip d"
      by (simp add: sd)
    finally show ?thesis by blast
  qed
qed

section \<open>Facts about searching\<close>

lemma re_search_append: "re_search p t \<Longrightarrow> re_search p (u @ t)"
  by (induction u) auto

lemma re_search_match: "re_match p t \<Longrightarrow> re_search p t"
  by (cases t) auto

lemma re_search_iff: "re_search p s \<longleftrightarrow> (\<exists>u t. s = u @ t \<and> re_match p t)"
proof
  show "re_search p s \<Longrightarrow> \<exists>u t. s = u @ t \<and> re_match p t"
  proof (induction s)
    case Nil
    then show ?case by simp
  next
    case (Cons c s)
    then show ?case
    proof (cases "re_match p (c # s)")
      case True
      then show ?thesis by blast
    next
      case False
      with Cons obtain u t where "s = u @ t" "re_match p t" by auto
      then have "c # s = (c # u) @ t" by simp
      with \<open>re_match p t\<close> show ?thesis by blast
    qed
  qed
next
  show "\<exists>u t. s = u @ t \<and> re_match p t \<Longrightarrow> re_search p s"
    using re_search_append re_search_match by blast
qed

lemma any_match_iff: "any_match ps s \<longleftrightarrow> (\<exists>p\<in>set ps. re_search p s)"
  by (induction ps) auto

section \<open>Facts about the classifier and the events\<close>

lemma spawned_confirm_prompt: "spawned (confirm_prompt cmd) = []"
  by (simp add: confirm_prompt_def)

lemma spawned_append: "spawned (xs @ ys) = spawned xs @ spawned ys"
  by (induction xs rule: spawned.induct) simp_all

lemma py_upper_YES: "py_upper ''YES'' = ''YES''"
  by code_simp

lemma is_command_safe_Forbidden_iff:
  "is_command_safe s = Forbidden \<longleftrightarrow> any_match forbidden_patterns (py_strip (py_lower s))"
  by (simp add: is_command_safe_def Let_def)

lemma is_command_safe_Safe_iff:
  "is_command_safe s = Safe \<longleftrightarrow>
     \<not> any_match forbidden_patterns (py_strip (py_lower s)) \<and>
     \<not> any_match confirmable_patterns (py_strip (py_lower s))"
  by (simp add: is_command_safe_def Let_def)

lemma no_match_empty:
  "\<not> any_match forbidden_patterns []" "\<not> any_match confirmable_patterns []"
  by (simp_all add: forbidden_patterns_def confirmable_patterns_def re_match_def)

lemma any_match_append: "any_match ps t \<Longrightarrow> any_match ps (y @ t)"
  by (auto simp: any_match_iff intro: re_search_append)

lemma norm_append:
  assumes "py_strip (py_lower d) \<noteq> []"
  shows "\<exists>y. py_strip (py_lower (x @ d)) = y @ py_strip (py_lower d)"
proof -
  have "py_lower (x @ d) = py_lower x @ py_lower d"
    by (simp add: py_lower_def)
  with py_strip_append[OF assms, of "py_lower x"] show ?thesis by simp
qed

lemma ms_lit: "t1 \<in> set (ms (lit w) t) \<Longrightarrow> t = w @ t1"
proof (induction w arbitrary: t)
  case Nil
  then show ?case by simp
next
  case (Cons c w)
  then show ?case by (cases t) (auto split: if_splits)
qed

lemma plus_space_needs: "ms (Plus Space) t \<noteq> [] \<Longrightarrow> \<exists>c t'. t = c # t' \<and> py_isspace c"
  by (cases t) (auto split: if_splits)

lemma lit_space_needs:
  assumes "re_match (Seq (lit w) (Seq (Plus Space) r)) t"
  shows "\<exists>c\<in>set t. py_isspace c"
proof -
  from assms obtain t1 where t1: "t1 \<in> set (ms (lit w) t)" and "ms (Seq (Plus Space) r) t1 \<noteq> []"
    by (auto simp: re_match_def)
  then have "ms (Plus Space) t1 \<noteq> []" by auto
  then obtain c t' where "t1 = c # t'" "py_isspace c"
    using plus_space_needs by blast
  with ms_lit[OF t1] show ?thesis by auto
qed

lemma confirm_needs_space:
  assumes "p \<in> set confirmable_patterns" and "re_match p t"
  shows "\<exists>c\<in>set t. py_isspace c"
proof -
  from assms(1) obtain w r where "p = Seq (lit w) (Seq (Plus Space) r)"
    unfolding confirmable_patterns_def by (auto simp only: set_simps insert_iff empty_iff seq.simps)
  with assms(2) show ?thesis using lit_space_needs by blast
qed

lemma confirm_search_needs_space:
  assumes "any_match confirmable_patterns t"
  shows "\<exists>c\<in>set t. py_isspace c"
proof -
  from assms obtain p u t' where "p \<in> set confirmable_patterns" "t = u @ t'" "re_match p t'"
    by (auto simp: any_match_iff re_search_iff)
  with confirm_needs_space[of p t'] show ?thesis by auto
qed

section \<open>Facts about matching a name and its argument\<close>

lemma ms_lit_self: "t \<in> set (ms (lit w) (w @ t))"
  by (induction w) simp_all

lemma iter_self: "s \<in> set (iter n f s)"
  by (cases n) simp_all

lemma iter_spaces:
  assumes "\<And>c u. P c \<Longrightarrow> f (c # u) = [u]"
  shows "list_all P ws \<Longrightarrow> length ws \<le> n \<Longrightarrow> t \<in> set (iter n f (ws @ t))"
proof (induction ws arbitrary: n)
  case Nil
  then show ?case by (simp add: iter_self)
next
  case (Cons c ws)
  then obtain m where n: "n = Suc m" and m: "length ws \<le> m"
    by (cases n) auto
  from Cons.prems have c: "P c" and ws: "list_all P ws" by simp_all
  have "t \<in> set (iter m f (ws @ t))"
    using ws m by (rule Cons.IH)
  moreover have "f (c # ws @ t) = [ws @ t]"
    using c by (rule assms)
  ultimately show ?case by (simp add: n)
qed

lemma ms_plus_space:
  assumes "ws \<noteq> []" and "list_all py_isspace ws"
  shows "t \<in> set (ms (Plus Space) (ws @ t))"
proof -
  from assms obtain c ws' where ws: "ws = c # ws'" and c: "py_isspace c" and r: "list_all py_isspace ws'"
    by (cases ws) auto
  have f: "\<And>c u. py_isspace c \<Longrightarrow> ms Space (c # u) = [u]"
    by simp
  have le: "length ws' \<le> length (ws' @ t)"
    by simp
  have "t \<in> set (iter (length (ws' @ t)) (ms Space) (ws' @ t))"
    by (rule iter_spaces[where P = py_isspace, OF f r le])
  moreover have "ms (Plus Space) (ws @ t) = iter (length (ws' @ t)) (ms Space) (ws' @ t)"
    using c by (simp add: ws)
  ultimately show ?thesis by (simp only:)
qed

lemma ms_plus_dot:
  assumes "a \<noteq> CHR 0x0A"
  shows "ms (Plus Dot) (a # z) \<noteq> []"
proof -
  have "ms (Plus Dot) (a # z) = iter (length z) (ms Dot) z"
    using assms by simp
  moreover have "z \<in> set (iter (length z) (ms Dot) z)"
    by (rule iter_self)
  ultimately show ?thesis by (metis empty_iff empty_set)
qed

lemma ms_Seq_I: "t1 \<in> set (ms a s) \<Longrightarrow> t2 \<in> set (ms b t1) \<Longrightarrow> t2 \<in> set (ms (Seq a b) s)"
  by auto

lemma name_arg_match:
  assumes "ws \<noteq> []" and "list_all py_isspace ws" and "a \<noteq> CHR 0x0A"
  shows "re_match (seq [lit name, Plus Space, Plus Dot]) (name @ ws @ a # z)"
proof -
  have 1: "ws @ a # z \<in> set (ms (lit name) (name @ ws @ a # z))"
    by (rule ms_lit_self)
  have 2: "a # z \<in> set (ms (Plus Space) (ws @ a # z))"
    using assms by (intro ms_plus_space)
  from ms_plus_dot[OF assms(3), of z] obtain t3 where 3: "t3 \<in> set (ms (Plus Dot) (a # z))"
    by (cases "ms (Plus Dot) (a # z)") auto
  have "t3 \<in> set (ms (Seq (Plus Dot) Eps) (a # z))"
    using 3 by simp
  with 2 have "t3 \<in> set (ms (Seq (Plus Space) (Seq (Plus Dot) Eps)) (ws @ a # z))"
    by (rule ms_Seq_I)
  with 1 have "t3 \<in> set (ms (Seq (lit name) (Seq (Plus Space) (Seq (Plus Dot) Eps))) (name @ ws @ a # z))"
    by (rule ms_Seq_I)
  then show ?thesis
    unfolding re_match_def seq.simps by (metis empty_iff empty_set)
qed

lemma newline_isspace: "\<not> py_isspace a \<Longrightarrow> a \<noteq> CHR 0x0A"
  by (auto simp: py_isspace_def)

lemma py_strip_keep:
  assumes "\<not> py_isspace n" and "\<not> py_isspace a"
  shows "\<exists>z. py_strip ((n # m) @ a # r) = (n # m) @ a # z"
proof -
  have "\<exists>y. dropWhile py_isspace (rev r @ a # rev m @ [n]) = y @ a # rev m @ [n]"
  proof (cases "\<forall>c\<in>set (rev r). py_isspace c")
    case True
    then have "dropWhile py_isspace (rev r @ a # rev m @ [n]) = [] @ a # rev m @ [n]"
      using assms(2) by (simp add: dropWhile_append)
    then show ?thesis by blast
  next
    case False
    then have "dropWhile py_isspace (rev r @ a # rev m @ [n])
        = dropWhile py_isspace (rev r) @ a # rev m @ [n]"
      by (auto simp: dropWhile_append)
    then show ?thesis by blast
  qed
  then obtain y where "dropWhile py_isspace (rev ((n # m) @ a # r)) = y @ a # rev m @ [n]"
    by auto
  then have "py_strip ((n # m) @ a # r) = dropWhile py_isspace ((n # m) @ a # rev y)"
    by (simp add: py_strip_def)
  with assms(1) show ?thesis by simp
qed

lemma bare_name_facts:
  assumes "name \<in> {''rm'', ''del'', ''rmdir'', ''mv''}"
  shows "py_lower name = name" and "\<exists>n m. name = n # m \<and> \<not> py_isspace n"
    and "seq [lit name, Plus Space, Plus Dot] \<in> set confirmable_patterns"
proof -
  have "\<forall>x \<in> set [''rm'', ''del'', ''rmdir'', ''mv''].
      py_lower x = x \<and> \<not> py_isspace (hd x) \<and> x \<noteq> [] \<and>
      seq [lit x, Plus Space, Plus Dot] \<in> set confirmable_patterns"
    by code_simp
  with assms have a: "py_lower name = name" and b: "\<not> py_isspace (hd name)" and c: "name \<noteq> []"
    and d: "seq [lit name, Plus Space, Plus Dot] \<in> set confirmable_patterns"
    by auto
  show "py_lower name = name" by (rule a)
  show "seq [lit name, Plus Space, Plus Dot] \<in> set confirmable_patterns" by (rule d)
  from b c show "\<exists>n m. name = n # m \<and> \<not> py_isspace n" by (cases name) auto
qed

lemma name_arg_confirmable:
  assumes "name \<in> {''rm'', ''del'', ''rmdir'', ''mv''}" and "ws \<noteq> []"
    and "list_all py_isspace ws" and "\<not> py_isspace a"
  shows "any_match confirmable_patterns (py_strip (py_lower (name @ ws @ a # r)))"
proof -
  from bare_name_facts[OF assms(1)] obtain n m where name: "name = n # m" and n: "\<not> py_isspace n"
      and low: "py_lower name = name"
      and p: "seq [lit name, Plus Space, Plus Dot] \<in> set confirmable_patterns"
    by blast
  define ws' where "ws' = py_lower ws"
  define a' where "a' = py_lower_chr a"
  have ws': "ws' \<noteq> []" "list_all py_isspace ws'"
    using assms(2,3) by (simp_all add: ws'_def py_lower_def list_all_iff py_isspace_lower)
  have a': "\<not> py_isspace a'"
    using assms(4) by (simp add: a'_def py_isspace_lower)
  have "py_lower (name @ ws @ a # r) = (n # m @ ws') @ a' # py_lower r"
    using low by (simp add: py_lower_def ws'_def a'_def name)
  moreover from py_strip_keep[OF n a', of "m @ ws'" "py_lower r"]
  obtain z where "py_strip ((n # m @ ws') @ a' # py_lower r) = (n # m @ ws') @ a' # z"
    by blast
  ultimately have norm: "py_strip (py_lower (name @ ws @ a # r)) = name @ ws' @ a' # z"
    by (simp add: name)
  have "re_match (seq [lit name, Plus Space, Plus Dot]) (name @ ws' @ a' # z)"
    using ws' newline_isspace[OF a'] by (intro name_arg_match)
  then have "re_search (seq [lit name, Plus Space, Plus Dot]) (py_strip (py_lower (name @ ws @ a # r)))"
    unfolding norm by (rule re_search_match)
  with p show ?thesis
    unfolding any_match_iff by blast
qed

section \<open>The claims\<close>

text \<open>
  C1 (checked against the code at its own input). The claim expects \<^verbatim>\<open>"confirm"\<close> for
  \<^verbatim>\<open>rm -rf /tmp/testdir\<close>. The first forbidden pattern, \<^verbatim>\<open>rm\s+-rf\s+/\<close>, has nothing
  after the slash, so it matches the start of \<^verbatim>\<open>rm -rf /tmp/testdir\<close> and the function
  returns \<^verbatim>\<open>False\<close>.
\<close>

theorem rm_rf_absolute_path: "is_command_safe ''rm -rf /tmp/testdir'' = Forbidden"
  by code_simp

text \<open>
  C2, as stated, fails: a run that ends with return code 0 and text on standard error
  gives \<^verbatim>\<open>success\<close> true with a non-empty \<^verbatim>\<open>error\<close>.
\<close>

theorem success_with_stderr:
  "execute_command (Cwd ''/home/u'') (Completed 0 ''done'' ''warning: slow'') None ''ls'' =
     (Inr \<lparr> success = True, output = ''done'', error = ''warning: slow'',
            command = ''ls'', return_code = Some 0 \<rparr>, [Spawned ''ls''])"
  by code_simp

text \<open>
  C2, amended: whenever \<^verbatim>\<open>execute_command\<close> returns a dictionary with \<^verbatim>\<open>success\<close>
  true, the key \<^verbatim>\<open>return_code\<close> is present and 0, the process completed with return code
  0, and \<^verbatim>\<open>error\<close> is its stripped standard error (which may be non-empty).
\<close>

theorem success_zero_exit:
  assumes "execute_command wd oc line cmd = (Inr r, tr)" and "success r"
  shows "return_code r = Some 0 \<and>
         (\<exists>out err. oc = Completed 0 out err \<and> error r = py_strip err)"
proof -
  from assms have "r = fst (run_shell wd oc cmd)"
    by (auto simp: execute_command_def Let_def blocked_def cancelled_def
             split: if_splits option.splits)
  with \<open>success r\<close> have "r = proc_result oc cmd"
    by (cases wd) auto
  with \<open>success r\<close> show ?thesis
    by (cases oc) (auto simp: py_strip_def)
qed

theorem success_zero_exit_witness:
  "execute_command (Cwd ''/home/u'') (Completed 0 ''done'' ''warning: slow'') None ''ls'' =
     (Inr \<lparr> success = True, output = ''done'', error = ''warning: slow'',
            command = ''ls'', return_code = Some 0 \<rparr>, [Spawned ''ls'']) \<and>
   success \<lparr> success = True, output = ''done'', error = ''warning: slow'',
            command = ''ls'', return_code = Some 0 \<rparr> \<and>
   return_code \<lparr> success = True, output = ''done'', error = ''warning: slow'',
            command = ''ls'', return_code = Some 0 \<rparr> = Some 0"
proof -
  have h: "execute_command (Cwd ''/home/u'') (Completed 0 ''done'' ''warning: slow'') None ''ls'' =
     (Inr \<lparr> success = True, output = ''done'', error = ''warning: slow'',
            command = ''ls'', return_code = Some 0 \<rparr>, [Spawned ''ls''])"
    by code_simp
  have s: "success \<lparr> success = True, output = ''done'', error = ''warning: slow'',
            command = ''ls'', return_code = Some 0 \<rparr>"
    by simp
  from success_zero_exit[OF h s] h show ?thesis by simp
qed

text \<open>
  C3: when the process is run (the events hold the call of \<^verbatim>\<open>subprocess.run\<close> on the
  command) and completes with
  return code \<open>rc\<close> and standard error \<open>err\<close>, then \<^verbatim>\<open>success\<close> is \<open>rc = 0\<close>, whatever
  \<open>err\<close> is, \<^verbatim>\<open>error\<close> is \<open>err\<close> stripped, and \<^verbatim>\<open>return_code\<close> is \<open>rc\<close>.
\<close>

theorem completed_result:
  assumes "execute_command wd (Completed rc out err) line cmd = (Inr r, tr)"
    and "spawned tr = [cmd]"
  shows "success r = (rc = 0) \<and> error r = py_strip err \<and> return_code r = Some rc"
proof -
  from assms have "r = fst (run_shell wd (Completed rc out err) cmd)"
      and "spawned (snd (run_shell wd (Completed rc out err) cmd)) = [cmd]"
    by (auto simp: execute_command_def Let_def spawned_confirm_prompt spawned_append
             split: if_splits option.splits)
  then have "r = proc_result (Completed rc out err) cmd"
    by (cases wd) auto
  then show ?thesis by (simp add: py_strip_def)
qed

theorem completed_result_witness:
  "execute_command (Cwd ''/home/u'') (Completed 0 ''ok'' '' note: x '') None ''ls'' =
     (Inr \<lparr> success = True, output = ''ok'', error = ''note: x'',
            command = ''ls'', return_code = Some 0 \<rparr>, [Spawned ''ls'']) \<and>
   spawned [Spawned ''ls''] = [''ls''] \<and>
   py_strip '' note: x '' = ''note: x''"
proof -
  have h: "execute_command (Cwd ''/home/u'') (Completed 0 ''ok'' '' note: x '') None ''ls'' =
     (Inr \<lparr> success = True, output = ''ok'', error = ''note: x'',
            command = ''ls'', return_code = Some 0 \<rparr>, [Spawned ''ls''])"
    by code_simp
  have s: "spawned [Spawned ''ls''] = [''ls'']"
    by simp
  from completed_result[OF h s] h s show ?thesis by simp
qed

text \<open>
  C4: for a command classified forbidden, \<^verbatim>\<open>execute_command\<close> returns \<^verbatim>\<open>success\<close> false,
  an empty \<^verbatim>\<open>output\<close>, the error \<^verbatim>\<open>Command blocked for security reasons:\<close> followed by
  the command, the command itself, no return code; and no event happens, so no process is
  run.
\<close>

theorem forbidden_never_runs:
  assumes "is_command_safe cmd = Forbidden"
  shows "execute_command wd oc line cmd =
           (Inr \<lparr> success = False, output = [],
                  error = ''Command blocked for security reasons: '' @ cmd,
                  command = cmd, return_code = None \<rparr>, [])"
  using assms by (simp add: execute_command_def blocked_def)

theorem forbidden_never_runs_witness:
  "is_command_safe ''shutdown now'' = Forbidden \<and>
   execute_command (Cwd ''/home/u'') (Completed 0 [] []) (Some ''YES'') ''shutdown now'' =
     (Inr \<lparr> success = False, output = [],
            error = ''Command blocked for security reasons: shutdown now'',
            command = ''shutdown now'', return_code = None \<rparr>, [])"
proof -
  have h: "is_command_safe ''shutdown now'' = Forbidden"
    by code_simp
  from forbidden_never_runs[OF h, of "Cwd ''/home/u''" "Completed 0 [] []" "Some ''YES''"] h
  show ?thesis by simp
qed

text \<open>
  C5, as stated, fails in both directions. The line read is stripped before it is
  compared, so the answer \<^verbatim>\<open>" yes "\<close>, which is not the token when case is ignored, gets
  the command run. And the answer \<^verbatim>\<open>YES\<close> does not get it run when \<^verbatim>\<open>os.getcwd()\<close>,
  evaluated before \<^verbatim>\<open>subprocess.run\<close> is called, raises.
\<close>

theorem padded_yes_runs:
  "is_command_safe ''rm notes.txt'' = Confirm \<and>
   \<not> eq_ignore_case '' yes '' ''YES'' \<and>
   spawned (snd (execute_command (Cwd ''/home/u'') (Completed 0 [] []) (Some '' yes '')
                   ''rm notes.txt'')) = [''rm notes.txt''] \<and>
   eq_ignore_case ''YES'' ''YES'' \<and>
   execute_command (CwdRaised ''No such file or directory'') (Completed 0 [] []) (Some ''YES'')
       ''rm notes.txt'' =
     (Inr \<lparr> success = False, output = [],
            error = ''Unexpected error executing command: No such file or directory'',
            command = ''rm notes.txt'', return_code = None \<rparr>,
      confirm_prompt ''rm notes.txt'')"
  by code_simp

text \<open>
  C5, amended: for a command classified \<^verbatim>\<open>"confirm"\<close> and an answer read,
  \<^verbatim>\<open>subprocess.run\<close> is called on the command if and only if the answer, with the
  whitespace at its ends removed, equals \<^verbatim>\<open>YES\<close> when case is ignored, and \<^verbatim>\<open>os.getcwd()\<close>
  returns. For any other answer the result is \<^verbatim>\<open>success\<close> false with the error
  \<^verbatim>\<open>Execution cancelled by user:\<close> followed by the command, and nothing is run. When the
  answer is accepted and \<^verbatim>\<open>os.getcwd()\<close> raises, the result is \<^verbatim>\<open>success\<close> false with the
  error \<^verbatim>\<open>Unexpected error executing command:\<close> followed by the exception's text, and
  nothing is run.
\<close>

theorem confirm_after_strip:
  assumes "is_command_safe cmd = Confirm"
  shows "execute_command (Cwd d) oc (Some l) cmd =
           (if eq_ignore_case (py_strip l) ''YES''
            then (Inr (proc_result oc cmd), confirm_prompt cmd @ [Spawned cmd])
            else (Inr \<lparr> success = False, output = [],
                        error = ''Execution cancelled by user: '' @ cmd,
                        command = cmd, return_code = None \<rparr>, confirm_prompt cmd))
         \<and> execute_command (CwdRaised e) oc (Some l) cmd =
           (if eq_ignore_case (py_strip l) ''YES''
            then (Inr \<lparr> success = False, output = [],
                        error = ''Unexpected error executing command: '' @ e,
                        command = cmd, return_code = None \<rparr>, confirm_prompt cmd)
            else (Inr \<lparr> success = False, output = [],
                        error = ''Execution cancelled by user: '' @ cmd,
                        command = cmd, return_code = None \<rparr>, confirm_prompt cmd))
         \<and> spawned (snd (execute_command (Cwd d) oc (Some l) cmd)) =
           (if eq_ignore_case (py_strip l) ''YES'' then [cmd] else [])
         \<and> spawned (snd (execute_command (CwdRaised e) oc (Some l) cmd)) = []"
  using assms
  by (simp add: execute_command_def Let_def cancelled_def eq_ignore_case_def
        py_upper_YES spawned_append spawned_confirm_prompt)

theorem confirm_after_strip_witness:
  "is_command_safe ''rm notes.txt'' = Confirm \<and>
   eq_ignore_case (py_strip ''Yes '') ''YES'' \<and>
   spawned (snd (execute_command (Cwd ''/home/u'') (Completed 0 [] []) (Some ''Yes '')
                   ''rm notes.txt'')) = [''rm notes.txt''] \<and>
   spawned (snd (execute_command (CwdRaised ''gone'') (Completed 0 [] []) (Some ''Yes '')
                   ''rm notes.txt'')) = [] \<and>
   \<not> eq_ignore_case (py_strip ''no'') ''YES'' \<and>
   spawned (snd (execute_command (Cwd ''/home/u'') (Completed 0 [] []) (Some ''no'')
                   ''rm notes.txt'')) = []"
proof -
  have h: "is_command_safe ''rm notes.txt'' = Confirm"
    by code_simp
  have y: "eq_ignore_case (py_strip ''Yes '') ''YES''"
    by code_simp
  have n: "\<not> eq_ignore_case (py_strip ''no'') ''YES''"
    by code_simp
  note t1 = confirm_after_strip[OF h, of "''/home/u''" "Completed 0 [] []" "''Yes ''" "''gone''"]
  note t2 = confirm_after_strip[OF h, of "''/home/u''" "Completed 0 [] []" "''no''" "''gone''"]
  from t1 y
  have a: "spawned (snd (execute_command (Cwd ''/home/u'') (Completed 0 [] []) (Some ''Yes '')
                   ''rm notes.txt'')) = [''rm notes.txt'']"
    by (simp add: spawned_append spawned_confirm_prompt)
  from t1
  have c: "spawned (snd (execute_command (CwdRaised ''gone'') (Completed 0 [] []) (Some ''Yes '')
                   ''rm notes.txt'')) = []"
    by (simp add: spawned_append spawned_confirm_prompt)
  from t2 n
  have b: "spawned (snd (execute_command (Cwd ''/home/u'') (Completed 0 [] []) (Some ''no'')
                   ''rm notes.txt'')) = []"
    by (simp add: spawned_append spawned_confirm_prompt)
  from h y n a b c show ?thesis by blast
qed

text \<open>
  C6: a command whose normalised text is matched by some forbidden pattern is classified
  forbidden, whatever the confirmable patterns say about it.
\<close>

theorem forbidden_wins:
  assumes "p \<in> set forbidden_patterns" and "re_search p (py_strip (py_lower s))"
  shows "is_command_safe s = Forbidden"
  using assms by (auto simp: is_command_safe_Forbidden_iff any_match_iff)

theorem forbidden_wins_witness:
  "seq [lit ''rm'', Plus Space, lit ''-rf'', Plus Space, Chr CHR ''/''] \<in> set forbidden_patterns \<and>
   re_search (seq [lit ''rm'', Plus Space, lit ''-rf'', Plus Space, Chr CHR ''/''])
     (py_strip (py_lower ''mv a b; rm -rf /'')) \<and>
   re_search (seq [lit ''mv'', Plus Space, Plus Dot]) (py_strip (py_lower ''mv a b; rm -rf /'')) \<and>
   seq [lit ''mv'', Plus Space, Plus Dot] \<in> set confirmable_patterns \<and>
   is_command_safe ''mv a b; rm -rf /'' = Forbidden"
proof -
  have p: "seq [lit ''rm'', Plus Space, lit ''-rf'', Plus Space, Chr CHR ''/''] \<in> set forbidden_patterns"
    by (simp add: forbidden_patterns_def)
  have m: "re_search (seq [lit ''rm'', Plus Space, lit ''-rf'', Plus Space, Chr CHR ''/''])
     (py_strip (py_lower ''mv a b; rm -rf /''))"
    by code_simp
  have q: "seq [lit ''mv'', Plus Space, Plus Dot] \<in> set confirmable_patterns"
    by (simp add: confirmable_patterns_def)
  have c: "re_search (seq [lit ''mv'', Plus Space, Plus Dot]) (py_strip (py_lower ''mv a b; rm -rf /''))"
    by code_simp
  from forbidden_wins[OF p m] p m q c show ?thesis by blast
qed

text \<open>
  C7 (checked against the code at its own input). The claim expects every \<^verbatim>\<open>mkfs\<close>
  command to be forbidden. No pattern of \<^verbatim>\<open>is_command_safe\<close> mentions \<^verbatim>\<open>mkfs\<close>:
  \<^verbatim>\<open>mkfs.ext4 /dev/sda1\<close> is classified safe.
\<close>

theorem mkfs_safe: "is_command_safe ''mkfs.ext4 /dev/sda1'' = Safe"
  by code_simp

text \<open>
  C8: the verdict of a command is the verdict of the command stripped and lowered, so
  \<^verbatim>\<open>RM -RF /\<close> and \<^verbatim>\<open>rm -rf /\<close> get the same verdict; and whatever is run is the
  command as it was given.
\<close>

theorem normalised_classification:
  "is_command_safe s = is_command_safe (py_lower (py_strip s)) \<and>
   is_command_safe ''RM -RF /'' = is_command_safe ''rm -rf /'' \<and>
   (spawned (snd (execute_command wd oc line s)) = [] \<or>
    spawned (snd (execute_command wd oc line s)) = [s])"
proof -
  have "py_strip (py_lower (py_lower (py_strip s))) = py_strip (py_lower s)"
    by (simp add: py_lower_idem py_strip_lower py_strip_idem)
  then have a: "is_command_safe s = is_command_safe (py_lower (py_strip s))"
    by (simp add: is_command_safe_def)
  have b: "is_command_safe ''RM -RF /'' = is_command_safe ''rm -rf /''"
    by code_simp
  have c: "spawned (snd (execute_command wd oc line s)) = [] \<or>
    spawned (snd (execute_command wd oc line s)) = [s]"
    by (cases wd)
       (simp_all add: execute_command_def Let_def spawned_append spawned_confirm_prompt
          split: option.splits)
  from a b c show ?thesis by blast
qed

text \<open>
  C9: a pattern that matches at any position of the normalised text decides the verdict:
  forbidden for a forbidden pattern; for a confirmable pattern \<^verbatim>\<open>"confirm"\<close>, unless a
  forbidden pattern matches as well. So a command that is not safe stays not safe, and a
  forbidden one stays forbidden, when any text is put in front of it (a safe command and a
  pipe, say).
\<close>

theorem dangerous_anywhere:
  "(py_strip (py_lower s) = u @ t \<and> re_match p t \<and> p \<in> set forbidden_patterns
      \<longrightarrow> is_command_safe s = Forbidden) \<and>
   (py_strip (py_lower s) = u @ t \<and> re_match p t \<and> p \<in> set confirmable_patterns
      \<longrightarrow> is_command_safe s =
          (if any_match forbidden_patterns (py_strip (py_lower s)) then Forbidden else Confirm)) \<and>
   (is_command_safe d = Forbidden \<longrightarrow> is_command_safe (x @ d) = Forbidden) \<and>
   (is_command_safe d \<noteq> Safe \<longrightarrow> is_command_safe (x @ d) \<noteq> Safe)"
proof (intro conjI impI)
  assume "py_strip (py_lower s) = u @ t \<and> re_match p t \<and> p \<in> set forbidden_patterns"
  then have "any_match forbidden_patterns (py_strip (py_lower s))"
    unfolding any_match_iff re_search_iff by blast
  then show "is_command_safe s = Forbidden"
    by (simp add: is_command_safe_Forbidden_iff)
next
  assume "py_strip (py_lower s) = u @ t \<and> re_match p t \<and> p \<in> set confirmable_patterns"
  then have "any_match confirmable_patterns (py_strip (py_lower s))"
    unfolding any_match_iff re_search_iff by blast
  then show "is_command_safe s =
          (if any_match forbidden_patterns (py_strip (py_lower s)) then Forbidden else Confirm)"
    by (simp add: is_command_safe_def Let_def)
next
  assume f: "is_command_safe d = Forbidden"
  then have m: "any_match forbidden_patterns (py_strip (py_lower d))"
    by (simp add: is_command_safe_Forbidden_iff)
  then have "py_strip (py_lower d) \<noteq> []"
    using no_match_empty by auto
  then obtain y where "py_strip (py_lower (x @ d)) = y @ py_strip (py_lower d)"
    using norm_append by blast
  with m show "is_command_safe (x @ d) = Forbidden"
    by (simp add: is_command_safe_Forbidden_iff any_match_append)
next
  assume "is_command_safe d \<noteq> Safe"
  then have m: "any_match forbidden_patterns (py_strip (py_lower d)) \<or>
      any_match confirmable_patterns (py_strip (py_lower d))"
    by (simp add: is_command_safe_Safe_iff)
  then have "py_strip (py_lower d) \<noteq> []"
    using no_match_empty by auto
  then obtain y where "py_strip (py_lower (x @ d)) = y @ py_strip (py_lower d)"
    using norm_append by blast
  with m show "is_command_safe (x @ d) \<noteq> Safe"
    by (auto simp: is_command_safe_Safe_iff any_match_append)
qed

theorem dangerous_anywhere_witness:
  "py_strip (py_lower ''ls | shutdown now'') = ''ls | '' @ ''shutdown now'' \<and>
   re_match (seq [lit ''shutdown'', Alt Space Eol]) ''shutdown now'' \<and>
   seq [lit ''shutdown'', Alt Space Eol] \<in> set forbidden_patterns \<and>
   is_command_safe ''ls | shutdown now'' = Forbidden \<and>
   py_strip (py_lower ''ls; mv a b'') = ''ls; '' @ ''mv a b'' \<and>
   re_match (seq [lit ''mv'', Plus Space, Plus Dot]) ''mv a b'' \<and>
   seq [lit ''mv'', Plus Space, Plus Dot] \<in> set confirmable_patterns \<and>
   is_command_safe ''ls; mv a b'' = Confirm \<and>
   is_command_safe ''reboot'' = Forbidden \<and>
   is_command_safe (''true && '' @ ''reboot'') = Forbidden"
proof -
  have a1: "py_strip (py_lower ''ls | shutdown now'') = ''ls | '' @ ''shutdown now''"
    by code_simp
  have a2: "re_match (seq [lit ''shutdown'', Alt Space Eol]) ''shutdown now''"
    by code_simp
  have a3: "seq [lit ''shutdown'', Alt Space Eol] \<in> set forbidden_patterns"
    by (simp add: forbidden_patterns_def)
  from dangerous_anywhere[of "''ls | shutdown now''" "''ls | ''" "''shutdown now''"
      "seq [lit ''shutdown'', Alt Space Eol]"] a1 a2 a3
  have a: "is_command_safe ''ls | shutdown now'' = Forbidden"
    by blast
  have b1: "py_strip (py_lower ''ls; mv a b'') = ''ls; '' @ ''mv a b''"
    by code_simp
  have b2: "re_match (seq [lit ''mv'', Plus Space, Plus Dot]) ''mv a b''"
    by code_simp
  have b3: "seq [lit ''mv'', Plus Space, Plus Dot] \<in> set confirmable_patterns"
    by (simp add: confirmable_patterns_def)
  have b4: "\<not> any_match forbidden_patterns (py_strip (py_lower ''ls; mv a b''))"
    by code_simp
  from dangerous_anywhere[of "''ls; mv a b''" "''ls; ''" "''mv a b''"
      "seq [lit ''mv'', Plus Space, Plus Dot]"] b1 b2 b3
  have "is_command_safe ''ls; mv a b'' =
          (if any_match forbidden_patterns (py_strip (py_lower ''ls; mv a b''))
           then Forbidden else Confirm)"
    by blast
  with b4 have b: "is_command_safe ''ls; mv a b'' = Confirm"
    by simp
  have c1: "is_command_safe ''reboot'' = Forbidden"
    by code_simp
  from dangerous_anywhere[of _ _ _ _ "''reboot''" "''true && ''"] c1
  have c: "is_command_safe (''true && '' @ ''reboot'') = Forbidden"
    by blast
  from a1 a2 a3 a b1 b2 b3 b c1 c show ?thesis by blast
qed

text \<open>
  C10: a command that, stripped, is exactly \<^verbatim>\<open>rm\<close>, \<^verbatim>\<open>del\<close>, \<^verbatim>\<open>rmdir\<close> or \<^verbatim>\<open>mv\<close> is
  classified safe. The reason holds in general: every confirmable pattern asks for a
  whitespace character, so a command whose normalised text has none is never classified
  \<^verbatim>\<open>"confirm"\<close>. And the argument is what makes the difference: one of the four names, then
  whitespace, then an argument that starts with a character that is no whitespace, is
  never safe; it is classified \<^verbatim>\<open>"confirm"\<close>, unless a forbidden pattern matches it.
\<close>

theorem bare_names_safe:
  "(py_strip s \<in> {''rm'', ''del'', ''rmdir'', ''mv''} \<longrightarrow> is_command_safe s = Safe) \<and>
   ((\<forall>c\<in>set (py_strip (py_lower s)). \<not> py_isspace c) \<longrightarrow> is_command_safe s \<noteq> Confirm) \<and>
   (name \<in> {''rm'', ''del'', ''rmdir'', ''mv''} \<and> ws \<noteq> [] \<and> list_all py_isspace ws \<and>
    \<not> py_isspace a \<longrightarrow>
      is_command_safe (name @ ws @ a # r) \<noteq> Safe \<and>
      is_command_safe (name @ ws @ a # r) =
        (if any_match forbidden_patterns (py_strip (py_lower (name @ ws @ a # r)))
         then Forbidden else Confirm))"
proof (intro conjI impI)
  assume "py_strip s \<in> {''rm'', ''del'', ''rmdir'', ''mv''}"
  then have "py_strip (py_lower s) \<in> {''rm'', ''del'', ''rmdir'', ''mv''}"
    unfolding py_strip_lower by (auto simp: py_lower_def py_lower_chr_def)
  then show "is_command_safe s = Safe"
    unfolding is_command_safe_def Let_def
    by (auto simp: forbidden_patterns_def confirmable_patterns_def re_match_def py_isspace_def)
next
  assume "\<forall>c\<in>set (py_strip (py_lower s)). \<not> py_isspace c"
  then have "\<not> any_match confirmable_patterns (py_strip (py_lower s))"
    using confirm_search_needs_space by blast
  then show "is_command_safe s \<noteq> Confirm"
    by (simp add: is_command_safe_def Let_def)
next
  assume h: "name \<in> {''rm'', ''del'', ''rmdir'', ''mv''} \<and> ws \<noteq> [] \<and>
      list_all py_isspace ws \<and> \<not> py_isspace a"
  then have m: "any_match confirmable_patterns (py_strip (py_lower (name @ ws @ a # r)))"
    by (intro name_arg_confirmable) simp_all
  then show "is_command_safe (name @ ws @ a # r) \<noteq> Safe"
    by (simp add: is_command_safe_Safe_iff)
  from m show "is_command_safe (name @ ws @ a # r) =
        (if any_match forbidden_patterns (py_strip (py_lower (name @ ws @ a # r)))
         then Forbidden else Confirm)"
    by (simp add: is_command_safe_def Let_def)
qed

theorem bare_names_safe_witness:
  "py_strip ''  rm '' \<in> {''rm'', ''del'', ''rmdir'', ''mv''} \<and>
   is_command_safe ''  rm '' = Safe \<and>
   filter py_isspace (py_strip (py_lower ''rmdir'')) = [] \<and>
   is_command_safe ''rmdir'' \<noteq> Confirm \<and>
   list_all py_isspace '' '' \<and>
   \<not> py_isspace CHR ''x'' \<and>
   is_command_safe ''rm x'' = Confirm \<and>
   is_command_safe ''del x'' = Confirm \<and>
   is_command_safe ''rmdir x'' = Confirm \<and>
   is_command_safe ''mv x'' = Confirm"
proof -
  have a1: "py_strip ''  rm '' \<in> {''rm'', ''del'', ''rmdir'', ''mv''}"
    by code_simp
  from bare_names_safe[of "''  rm ''"] a1 have a: "is_command_safe ''  rm '' = Safe"
    by blast
  have b1: "filter py_isspace (py_strip (py_lower ''rmdir'')) = []"
    by code_simp
  then have b2: "\<forall>c\<in>set (py_strip (py_lower ''rmdir'')). \<not> py_isspace c"
    by (simp only: filter_empty_conv)
  from bare_names_safe[of "''rmdir''"] b2 have b: "is_command_safe ''rmdir'' \<noteq> Confirm"
    by blast
  have c1: "list_all py_isspace '' ''"
    by code_simp
  have c2: "\<not> py_isspace CHR ''x''"
    by code_simp
  have c3: "'' '' \<noteq> []"
    by simp
  have n: "''rm'' \<in> {''rm'', ''del'', ''rmdir'', ''mv''}" "''del'' \<in> {''rm'', ''del'', ''rmdir'', ''mv''}"
      "''rmdir'' \<in> {''rm'', ''del'', ''rmdir'', ''mv''}" "''mv'' \<in> {''rm'', ''del'', ''rmdir'', ''mv''}"
    by simp_all
  have f: "\<not> any_match forbidden_patterns (py_strip (py_lower ''rm x''))"
      "\<not> any_match forbidden_patterns (py_strip (py_lower ''del x''))"
      "\<not> any_match forbidden_patterns (py_strip (py_lower ''rmdir x''))"
      "\<not> any_match forbidden_patterns (py_strip (py_lower ''mv x''))"
    by code_simp+
  from bare_names_safe[of _ "''rm''" "'' ''" "CHR ''x''" "[]"] n(1) c1 c2 c3
  have "is_command_safe (''rm'' @ '' '' @ [CHR ''x'']) =
        (if any_match forbidden_patterns (py_strip (py_lower (''rm'' @ '' '' @ [CHR ''x''])))
         then Forbidden else Confirm)"
    by blast
  with f(1) have d1: "is_command_safe ''rm x'' = Confirm"
    by simp
  from bare_names_safe[of _ "''del''" "'' ''" "CHR ''x''" "[]"] n(2) c1 c2 c3
  have "is_command_safe (''del'' @ '' '' @ [CHR ''x'']) =
        (if any_match forbidden_patterns (py_strip (py_lower (''del'' @ '' '' @ [CHR ''x''])))
         then Forbidden else Confirm)"
    by blast
  with f(2) have d2: "is_command_safe ''del x'' = Confirm"
    by simp
  from bare_names_safe[of _ "''rmdir''" "'' ''" "CHR ''x''" "[]"] n(3) c1 c2 c3
  have "is_command_safe (''rmdir'' @ '' '' @ [CHR ''x'']) =
        (if any_match forbidden_patterns (py_strip (py_lower (''rmdir'' @ '' '' @ [CHR ''x''])))
         then Forbidden else Confirm)"
    by blast
  with f(3) have d3: "is_command_safe ''rmdir x'' = Confirm"
    by simp
  from bare_names_safe[of _ "''mv''" "'' ''" "CHR ''x''" "[]"] n(4) c1 c2 c3
  have "is_command_safe (''mv'' @ '' '' @ [CHR ''x'']) =
        (if any_match forbidden_patterns (py_strip (py_lower (''mv'' @ '' '' @ [CHR ''x''])))
         then Forbidden else Confirm)"
    by blast
  with f(4) have d4: "is_command_safe ''mv x'' = Confirm"
    by simp
  from a1 a b1 b c1 c2 d1 d2 d3 d4 show ?thesis by blast
qed

end
